theory Spec2Isabelle
  imports Complex_Main
begin

section \<open>Data model\<close>

text \<open>
  The notebook computes with Python lists of floats and numpy scalars.  A vector is a
  list of finite numbers, taken here as reals (rounding, overflow and underflow of binary
  floating point are not part of the model).  A numpy scalar that results from a division
  can also be an infinity or NaN, so scores are values of \<open>npfloat\<close>.
\<close>

datatype error = ValueError | IndexError | KeyError | RetryError | ServiceError | ShapeError

datatype npfloat = Fin real | PInf | NInf | NaN

text \<open>numpy's \<open>a / b\<close> on float64 scalars: a warning, never an exception.\<close>

definition np_div :: "real \<Rightarrow> real \<Rightarrow> npfloat" where
  "np_div a b =
     (if b = 0 then (if a = 0 then NaN else if 0 < a then PInf else NInf)
      else Fin (a / b))"

text \<open>IEEE comparisons: every comparison with NaN is false.\<close>

fun np_ge :: "npfloat \<Rightarrow> npfloat \<Rightarrow> bool" where
  "np_ge NaN _ = False"
| "np_ge _ NaN = False"
| "np_ge PInf _ = True"
| "np_ge _ NInf = True"
| "np_ge NInf _ = False"
| "np_ge _ PInf = False"
| "np_ge (Fin a) (Fin b) = (b \<le> a)"

fun np_lt :: "npfloat \<Rightarrow> npfloat \<Rightarrow> bool" where
  "np_lt NaN _ = False"
| "np_lt _ NaN = False"
| "np_lt _ NInf = False"
| "np_lt NInf _ = True"
| "np_lt PInf _ = False"
| "np_lt _ PInf = True"
| "np_lt (Fin a) (Fin b) = (a < b)"

text \<open>Python's slice \<open>xs[:k]\<close>: a negative \<open>k\<close> counts from the end.\<close>

definition py_prefix :: "'a list \<Rightarrow> int \<Rightarrow> 'a list" where
  "py_prefix xs k =
     (if 0 \<le> k then take (nat k) xs else take (length xs - nat (- k)) xs)"

text \<open>
  Python's \<open>sorted(xs, key=f, reverse=True)\<close>: a stable sort into descending key order
  that compares keys with \<open><\<close> only; elements with equal keys keep their order.
\<close>

fun insort_reverse :: "('a \<Rightarrow> npfloat) \<Rightarrow> 'a \<Rightarrow> 'a list \<Rightarrow> 'a list" where
  "insort_reverse f x [] = [x]"
| "insort_reverse f x (y # ys) =
     (if np_lt (f x) (f y) then y # insort_reverse f x ys else x # y # ys)"

definition sorted_reverse :: "('a \<Rightarrow> npfloat) \<Rightarrow> 'a list \<Rightarrow> 'a list" where
  "sorted_reverse f xs = foldr (insort_reverse f) xs []"

section \<open>Similarity search\<close>

text \<open>
  \<open>np.dot\<close> of two one-dimensional arrays raises ValueError when the lengths differ.
  The dot product and the norm are the exact ones.  In binary floating point the squares
  of very small components underflow, so that a computed norm can be \<open>0.0\<close> for a vector
  that is not the zero vector; the exact norm does not show this, and what is stated
  below about a zero norm is stated for the zero vector, where the two agree.
\<close>

definition np_dot :: "real list \<Rightarrow> real list \<Rightarrow> error + real" where
  "np_dot vec1 vec2 =
     (if length vec1 \<noteq> length vec2 then Inl ValueError
      else Inr (\<Sum>(x, y) \<leftarrow> zip vec1 vec2. x * y))"

definition np_norm :: "real list \<Rightarrow> real" where
  "np_norm vec = sqrt (\<Sum>x \<leftarrow> vec. x * x)"

definition cosine_similarity_manual :: "real list \<Rightarrow> real list \<Rightarrow> error + npfloat" where
  "cosine_similarity_manual vec1 vec2 =
     (case np_dot vec1 vec2 of
        Inl e \<Rightarrow> Inl e
      | Inr dot_product \<Rightarrow>
          (let norm_vec1 = np_norm vec1; norm_vec2 = np_norm vec2
           in Inr (np_div dot_product (norm_vec1 * norm_vec2))))"

text \<open>
  The list comprehension over \<open>enumerate(embeddings)\<close>: the first embedding on which
  the similarity raises aborts the whole comprehension.
\<close>

fun similarities :: "real list \<Rightarrow> (nat \<times> real list) list \<Rightarrow> error + (nat \<times> npfloat) list" where
  "similarities input_embedding [] = Inr []"
| "similarities input_embedding ((index, vec) # rest) =
     (case cosine_similarity_manual input_embedding vec of
        Inl e \<Rightarrow> Inl e
      | Inr sim \<Rightarrow>
          (case similarities input_embedding rest of
             Inl e \<Rightarrow> Inl e
           | Inr sims \<Rightarrow> Inr ((index, sim) # sims)))"

definition find_similar_items ::
  "real list \<Rightarrow> real list list \<Rightarrow> npfloat \<Rightarrow> int \<Rightarrow> error + (nat \<times> npfloat) list" where
  "find_similar_items input_embedding embeddings threshold top_k =
     (case similarities input_embedding (enumerate 0 embeddings) of
        Inl e \<Rightarrow> Inl e
      | Inr sims \<Rightarrow>
          (let filtered_similarities = filter (\<lambda>(index, sim). np_ge sim threshold) sims;
               sorted_indices = py_prefix (sorted_reverse snd filtered_similarities) top_k
           in Inr sorted_indices))"

section \<open>Embedding client\<close>

text \<open>
  \<open>get_embeddings\<close> is decorated with
  \<open>@retry(wait=wait_random_exponential(min=1, max=40), stop=stop_after_attempt(10))\<close>.
  The decorator comes from the retry library the notebook installs (tenacity, current
  release): the wait before the next attempt is \<open>random.uniform(min, high)\<close>, where
  \<open>high\<close> is the exponential bound \<open>2 ^ (attempt - 1)\<close> capped at \<open>max\<close> and kept at
  least \<open>min\<close>; \<open>u\<close> is the uniform sample from the unit interval that
  \<open>random.uniform\<close> scales.  After the last attempt the library raises RetryError.
\<close>

definition wait_exponential :: "real \<Rightarrow> real \<Rightarrow> real \<Rightarrow> nat \<Rightarrow> real" where
  "wait_exponential multiplier min_wait max_wait attempt_number =
     max (max 0 min_wait) (min (multiplier * 2 ^ (attempt_number - 1)) max_wait)"

definition wait_random_exponential :: "real \<Rightarrow> real \<Rightarrow> real \<Rightarrow> nat \<Rightarrow> real" where
  "wait_random_exponential min_wait max_wait u attempt_number =
     (let high = wait_exponential 1 min_wait max_wait attempt_number
      in min_wait + (high - min_wait) * u)"

definition stop_after_attempt :: "nat \<Rightarrow> nat \<Rightarrow> bool" where
  "stop_after_attempt max_attempt_number attempt_number = (max_attempt_number \<le> attempt_number)"

text \<open>
  The retry loop.  \<open>call n\<close> is the outcome of the \<open>n\<close>-th attempt (counted from 1) of the
  request to the embedding service, \<open>jitter n\<close> the uniform sample drawn after it failed.
  The function returns the waits slept so far together with the outcome; the number of
  attempts made is one more than the number of waits.
\<close>

function retrying ::
  "(nat \<Rightarrow> error + 'a) \<Rightarrow> (nat \<Rightarrow> real) \<Rightarrow> nat \<Rightarrow> real list \<Rightarrow> real list \<times> (error + 'a)" where
  "retrying call jitter attempt_number slept =
     (case call attempt_number of
        Inr response \<Rightarrow> (slept, Inr response)
      | Inl e \<Rightarrow>
          if stop_after_attempt 10 attempt_number then (slept, Inl RetryError)
          else retrying call jitter (Suc attempt_number)
                 (slept @ [wait_random_exponential 1 40 (jitter attempt_number) attempt_number]))"
  by pat_completeness auto
termination
  by (relation "measure (\<lambda>(call, jitter, attempt_number, slept). 10 - attempt_number)")
     (auto simp: stop_after_attempt_def)

definition get_embeddings ::
  "('i \<Rightarrow> nat \<Rightarrow> error + real list list) \<Rightarrow> (nat \<Rightarrow> real) \<Rightarrow> 'i \<Rightarrow>
     real list \<times> (error + real list list)" where
  "get_embeddings client jitter input = retrying (client input) jitter 1 []"

section \<open>Corpus embedding\<close>

text \<open>
  \<open>batchify\<close> is a generator over \<open>range(0, l, n)\<close>: a zero step raises ValueError, a
  negative step yields nothing, a positive step yields the slices
  \<open>iterable[ndx : min(ndx + n, l)]\<close>.
\<close>

function batchify_from :: "'a list \<Rightarrow> nat \<Rightarrow> nat \<Rightarrow> 'a list list" where
  "batchify_from iterable n ndx =
     (if 0 < n \<and> ndx < length iterable
      then take (min (ndx + n) (length iterable) - ndx) (drop ndx iterable)
             # batchify_from iterable n (ndx + n)
      else [])"
  by pat_completeness auto
termination
  by (relation "measure (\<lambda>(iterable, n, ndx). length iterable - ndx)") auto

definition batchify :: "'a list \<Rightarrow> int \<Rightarrow> error + 'a list list" where
  "batchify iterable n =
     (if n = 0 then Inl ValueError
      else if n < 0 then Inr []
      else Inr (batchify_from iterable (nat n) 0))"

text \<open>Gathering \<open>future.result()\<close> in submission order: the first failed batch raises.\<close>

fun collect_results :: "(error + 'a list) list \<Rightarrow> 'a list \<Rightarrow> error + 'a list" where
  "collect_results [] embeddings = Inr embeddings"
| "collect_results (future # futures) embeddings =
     (case future of
        Inl e \<Rightarrow> Inl e
      | Inr data \<Rightarrow> collect_results futures (embeddings @ data))"

text \<open>
  \<open>encode\<close> is the tokenizer (\<open>encoding.encode_batch\<close> applies it to every text).
  \<open>client k\<close> and \<open>jitter k\<close> are the service outcomes and the random samples seen by the
  \<open>k\<close>-th submitted batch.  \<open>completed\<close> is the order in which \<open>as_completed\<close> yields the
  futures; the loop over it only advances the progress bar.  The printed statistics are
  left out.  The result is the final progress count paired with the returned value;
  \<open>ThreadPoolExecutor\<close> raises ValueError unless \<open>max_workers\<close> is positive.
\<close>

definition encoded_corpus :: "(string \<Rightarrow> nat list) \<Rightarrow> string list \<Rightarrow> int \<Rightarrow> nat list list" where
  "encoded_corpus encode corpus max_context_len =
     map (\<lambda>encoded_article. py_prefix encoded_article max_context_len) (map encode corpus)"

definition submit_all ::
  "(nat \<Rightarrow> 'i \<Rightarrow> nat \<Rightarrow> error + real list list) \<Rightarrow> (nat \<Rightarrow> nat \<Rightarrow> real) \<Rightarrow> 'i list \<Rightarrow>
     (error + real list list) list" where
  "submit_all client jitter batches =
     map (\<lambda>(k, text_batch). snd (get_embeddings (client k) (jitter k) text_batch))
       (enumerate 0 batches)"

definition embed_corpus ::
  "(string \<Rightarrow> nat list) \<Rightarrow> (nat \<Rightarrow> nat list list \<Rightarrow> nat \<Rightarrow> error + real list list) \<Rightarrow>
     (nat \<Rightarrow> nat \<Rightarrow> real) \<Rightarrow> nat list \<Rightarrow> string list \<Rightarrow> int \<Rightarrow> int \<Rightarrow> int \<Rightarrow>
     int \<times> (error + real list list)" where
  "embed_corpus encode client jitter completed corpus batch_size num_workers max_context_len =
     (let encoded = encoded_corpus encode corpus max_context_len
      in if num_workers \<le> 0 then (0, Inl ValueError)
         else case batchify encoded batch_size of
                Inl e \<Rightarrow> (0, Inl e)
              | Inr batches \<Rightarrow>
                  (let futures = submit_all client jitter batches;
                       pbar = fold (\<lambda>_ n. n + batch_size) completed 0
                   in (pbar, collect_results futures [])))"

section \<open>Retrieval\<close>

text \<open>
  The catalogue data frame: its column labels in order, and its rows.  A row holds its
  cells in column order; \<open>row_embeddings\<close> is the content of its cell in column
  \<open>embeddings\<close> as the list of floats that \<open>df_items['embeddings'].tolist()\<close> yields.
\<close>

datatype cell = IntCell int | StrCell string | VecCell "real list"










section \<open>Guardrail loop\<close>

text \<open>
  \<open>check path\<close> stands for \<open>json.loads(check_match(encoded_image,
  encode_image_to_base64(path)))\<close>: reading the file, the model call and the JSON parser
  may each raise; otherwise the result is the parsed object.  The loop's effects are
  recorded as a log of events.
\<close>

datatype jvalue = JStr string | JNum int | JBool bool | JNull

datatype event = Verify string | DisplayImage string | PrintText string | PrintValue jvalue

fun guardrail_loop ::
  "(string \<Rightarrow> error + (string \<rightharpoonup> jvalue)) \<Rightarrow> string list \<Rightarrow> event list \<Rightarrow>
     event list \<times> error option" where
  "guardrail_loop check [] events = (events, None)"
| "guardrail_loop check (path # paths) events =
     (case check path of
        Inl e \<Rightarrow> (events @ [Verify path], Some e)
      | Inr match \<Rightarrow>
          (case match ''answer'' of
             None \<Rightarrow> (events @ [Verify path], Some KeyError)
           | Some answer \<Rightarrow>
               if answer = JStr ''yes'' then
                 (case match ''reason'' of
                    None \<Rightarrow>
                      (events @ [Verify path, DisplayImage path, PrintText ''The items match!''],
                       Some KeyError)
                  | Some reason \<Rightarrow>
                      guardrail_loop check paths
                        (events @ [Verify path, DisplayImage path, PrintText ''The items match!'',
                                PrintValue reason]))
               else guardrail_loop check paths (events @ [Verify path])))"


section \<open>Auxiliary notions\<close>

text \<open>
  The order in which a query lists two of its results: the earlier one has the greater
  or equal score, and on equal scores the smaller position in the index.
\<close>

definition ranked :: "nat \<times> npfloat \<Rightarrow> nat \<times> npfloat \<Rightarrow> bool" where
  "ranked a b = (np_ge (snd a) (snd b) \<and> (snd a = snd b \<longrightarrow> fst a < fst b))"

section \<open>Properties of the number model and of sorting\<close>


lemma np_ge_not_NaN: "np_ge a b \<Longrightarrow> a \<noteq> NaN \<and> b \<noteq> NaN"
  by (cases a; cases b) auto

lemma np_ge_trans: "np_ge a b \<Longrightarrow> np_ge b c \<Longrightarrow> np_ge a c"
  by (cases a; cases b; cases c) auto

lemma np_lt_ge: "np_lt a b \<Longrightarrow> np_ge b a \<and> a \<noteq> b"
  by (cases a; cases b) auto

lemma not_np_lt_ge: "a \<noteq> NaN \<Longrightarrow> b \<noteq> NaN \<Longrightarrow> \<not> np_lt a b \<Longrightarrow> np_ge a b"
  by (cases a; cases b) auto

lemma np_ge_refl: "a \<noteq> NaN \<Longrightarrow> np_ge a a"
  by (cases a) auto

lemma set_insort_reverse: "set (insort_reverse f x ys) = insert x (set ys)"
  by (induction ys) auto

lemma length_insort_reverse: "length (insort_reverse f x ys) = Suc (length ys)"
  by (induction ys) auto

lemma set_sorted_reverse: "set (sorted_reverse f xs) = set xs"
  by (induction xs) (auto simp: sorted_reverse_def set_insort_reverse)

lemma length_sorted_reverse: "length (sorted_reverse f xs) = length xs"
  by (induction xs) (auto simp: sorted_reverse_def length_insort_reverse)


lemma sorted_insort_reverse:
  assumes "sorted_wrt ranked ys" "\<forall>y \<in> set ys. fst x < fst y" "snd x \<noteq> NaN"
    "\<forall>y \<in> set ys. snd y \<noteq> NaN"
  shows "sorted_wrt ranked (insort_reverse snd x ys)"
  using assms
proof (induction ys)
  case Nil
  then show ?case by simp
next
  case (Cons y ys)
  show ?case
  proof (cases "np_lt (snd x) (snd y)")
    case True
    have "ranked y x" using np_lt_ge[OF True] by (auto simp: ranked_def)
    moreover have "sorted_wrt ranked (insort_reverse snd x ys)"
      using Cons by simp
    ultimately show ?thesis using True Cons.prems(1)
      by (auto simp: set_insort_reverse)
  next
    case False
    have xy: "np_ge (snd x) (snd y)"
      using False Cons.prems by (intro not_np_lt_ge) auto
    have "ranked x z" if "z \<in> set (y # ys)" for z
    proof -
      have "np_ge (snd y) (snd z)"
        using that Cons.prems(1,4) by (auto simp: ranked_def np_ge_refl)
      then have "np_ge (snd x) (snd z)" using xy np_ge_trans by blast
      then show ?thesis using Cons.prems(2) that by (auto simp: ranked_def)
    qed
    then show ?thesis using False Cons.prems(1) by auto
  qed
qed

lemma sorted_sorted_reverse:
  assumes "sorted_wrt (\<lambda>a b. fst a < fst b) xs" "\<forall>x \<in> set xs. snd x \<noteq> NaN"
  shows "sorted_wrt ranked (sorted_reverse snd xs)"
  using assms
proof (induction xs)
  case Nil
  then show ?case by (simp add: sorted_reverse_def)
next
  case (Cons x xs)
  have "sorted_reverse snd (x # xs) = insort_reverse snd x (sorted_reverse snd xs)"
    by (simp add: sorted_reverse_def)
  moreover have "sorted_wrt ranked (insort_reverse snd x (sorted_reverse snd xs))"
    using Cons by (intro sorted_insort_reverse) (auto simp: set_sorted_reverse)
  ultimately show ?case by simp
qed

lemma similarities_enumerate:
  "similarities q (enumerate n embs) = Inr sims \<Longrightarrow>
     length sims = length embs \<and>
     (\<forall>k < length embs. fst (sims ! k) = n + k \<and>
        cosine_similarity_manual q (embs ! k) = Inr (snd (sims ! k)))"
proof (induction embs arbitrary: n sims)
  case Nil
  then show ?case by simp
next
  case (Cons v embs)
  from Cons.prems obtain s rest where
    s: "cosine_similarity_manual q v = Inr s" and
    rest: "similarities q (enumerate (Suc n) embs) = Inr rest" and
    sims: "sims = (n, s) # rest"
    by (auto split: sum.splits)
  from Cons.IH[OF rest] show ?case
    using s sims by (auto simp: nth_Cons split: nat.splits)
qed

lemma similarities_error:
  "similarities q (enumerate n embs) = Inl e \<Longrightarrow> e = ValueError \<and> (\<exists>v \<in> set embs. length v \<noteq> length q)"
proof (induction embs arbitrary: n)
  case Nil
  then show ?case by simp
next
  case (Cons v embs)
  then show ?case
    by (auto simp: cosine_similarity_manual_def np_dot_def split: sum.splits if_splits)
qed

lemma similarities_ok:
  "\<forall>v \<in> set embs. length v = length q \<Longrightarrow> \<exists>sims. similarities q (enumerate n embs) = Inr sims"
  by (cases "similarities q (enumerate n embs)") (auto dest: similarities_error)

lemma similarities_index_sorted:
  "similarities q (enumerate n embs) = Inr sims \<Longrightarrow> map fst sims = [n..<n + length embs]"
proof (induction embs arbitrary: n sims)
  case Nil
  then show ?case by simp
next
  case (Cons v embs)
  from Cons.prems obtain s rest where
    rest: "similarities q (enumerate (Suc n) embs) = Inr rest" and
    sims: "sims = (n, s) # rest"
    by (auto split: sum.splits)
  show ?case using Cons.IH[OF rest] sims by (simp add: upt_rec)
qed

lemma py_prefix_take: "\<exists>m. py_prefix xs k = take m xs"
  by (auto simp: py_prefix_def)

lemma index_sorted_filter:
  assumes "map fst sims = [n..<m]"
  shows "sorted_wrt (\<lambda>a b. fst a < fst b) (filter P sims)"
proof -
  have "sorted_wrt (<) (map fst sims)" using assms by simp
  then have "sorted_wrt (\<lambda>a b. fst a < fst b) sims" by (simp add: sorted_wrt_map)
  then show ?thesis by (rule sorted_wrt_filter)
qed

lemma find_similar_items_Inr:
  assumes "find_similar_items q embs threshold top_k = Inr res"
  obtains sims where
    "similarities q (enumerate 0 embs) = Inr sims"
    "res = py_prefix (sorted_reverse snd (filter (\<lambda>(index, sim). np_ge sim threshold) sims)) top_k"
  using assms by (auto simp: find_similar_items_def split: sum.splits)

lemma ranked_full:
  assumes "similarities q (enumerate 0 embs) = Inr sims"
  shows "sorted_wrt ranked (sorted_reverse snd (filter (\<lambda>(index, sim). np_ge sim threshold) sims))"
proof (rule sorted_sorted_reverse)
  show "sorted_wrt (\<lambda>a b. fst a < fst b) (filter (\<lambda>(index, sim). np_ge sim threshold) sims)"
    using similarities_index_sorted[OF assms] by (rule index_sorted_filter)
  show "\<forall>x\<in>set (filter (\<lambda>(index, sim). np_ge sim threshold) sims). snd x \<noteq> NaN"
    by (auto dest: np_ge_not_NaN)
qed

lemma sims_member:
  assumes "similarities q (enumerate 0 embs) = Inr sims"
  shows "(index, score) \<in> set sims \<longleftrightarrow>
           index < length embs \<and> cosine_similarity_manual q (embs ! index) = Inr score"
proof
  assume "(index, score) \<in> set sims"
  then obtain k where k: "k < length sims" "sims ! k = (index, score)"
    by (auto simp: in_set_conv_nth)
  with similarities_enumerate[OF assms] show
    "index < length embs \<and> cosine_similarity_manual q (embs ! index) = Inr score"
    by (metis add_0 fst_conv snd_conv)
next
  assume a: "index < length embs \<and> cosine_similarity_manual q (embs ! index) = Inr score"
  with similarities_enumerate[OF assms] have "sims ! index = (index, score)" "index < length sims"
    by (auto simp: prod_eq_iff)
  then show "(index, score) \<in> set sims" by (metis nth_mem)
qed

section \<open>The similarity query\<close>

lemmas query_eval = find_similar_items_def cosine_similarity_manual_def np_dot_def np_norm_def
  np_div_def py_prefix_def sorted_reverse_def enumerate_simps

text \<open>
  Claim C10.  Every pair that the similarity query returns is well formed: its index is a
  position of the embeddings list and its score is the cosine similarity of the query
  vector with the embedding at that position; a query over the empty list returns the
  empty result for every threshold and every \<open>top_k\<close>.  The query returns whenever
  every embedding has the dimension of the query vector.
\<close>

theorem find_similar_items_wellformed:
  "(\<forall>res index score.
      find_similar_items q embs threshold top_k = Inr res \<longrightarrow> (index, score) \<in> set res \<longrightarrow>
        index < length embs \<and> cosine_similarity_manual q (embs ! index) = Inr score) \<and>
   find_similar_items q [] threshold top_k = Inr [] \<and>
   ((\<forall>vec \<in> set embs. length vec = length q) \<longrightarrow>
      (\<exists>res. find_similar_items q embs threshold top_k = Inr res))"
proof (intro conjI allI impI)
  fix res index score
  assume r: "find_similar_items q embs threshold top_k = Inr res" and m: "(index, score) \<in> set res"
  from r obtain sims where
    sims: "similarities q (enumerate 0 embs) = Inr sims" and
    res: "res = py_prefix (sorted_reverse snd (filter (\<lambda>(index, sim). np_ge sim threshold) sims)) top_k"
    by (rule find_similar_items_Inr)
  obtain m' where "res = take m' (sorted_reverse snd (filter (\<lambda>(index, sim). np_ge sim threshold) sims))"
    using res py_prefix_take by metis
  then have "(index, score) \<in> set sims"
    using m by (auto dest!: in_set_takeD simp: set_sorted_reverse)
  then show "index < length embs" "cosine_similarity_manual q (embs ! index) = Inr score"
    using sims_member[OF sims] by auto
next
  show "find_similar_items q [] threshold top_k = Inr []"
    by (simp add: find_similar_items_def enumerate_simps py_prefix_def sorted_reverse_def)
next
  assume "\<forall>vec \<in> set embs. length vec = length q"
  then obtain sims where "similarities q (enumerate 0 embs) = Inr sims"
    using similarities_ok by blast
  then show "\<exists>res. find_similar_items q embs threshold top_k = Inr res"
    by (simp add: find_similar_items_def)
qed

text \<open>
  Claim C10 at a query over three embeddings: the second result is position 2 with the
  similarity of the query vector to the third embedding.
\<close>

theorem find_similar_items_wellformed_witness:
  "find_similar_items [1, 0] [[1, 0], [0, 1], [3 / 5, 4 / 5]] (Fin (1 / 2)) 2
     = Inr [(0, Fin 1), (2, Fin (3 / 5))] \<and>
   (2, Fin (3 / 5)) \<in> set [(0::nat, Fin 1), (2, Fin (3 / 5))] \<and>
   (2::nat) < length [[1, 0], [0, 1], [3 / 5, 4 / 5::real]] \<and>
   cosine_similarity_manual [1, 0] ([[1, 0], [0, 1], [3 / 5, 4 / 5]] ! 2) = Inr (Fin (3 / 5)) \<and>
   find_similar_items [1, 0] [] (Fin (1 / 2)) 2 = Inr []"
proof -
  have h: "find_similar_items [1, 0] [[1, 0], [0, 1], [3 / 5, 4 / 5]] (Fin (1 / 2)) 2
             = Inr [(0, Fin 1), (2, Fin (3 / 5))]"
    by (simp add: query_eval)
  note t = find_similar_items_wellformed[of "[1, 0]" "[[1, 0], [0, 1], [3 / 5, 4 / 5]]"
      "Fin (1 / 2)" 2]
  have m: "(2, Fin (3 / 5)) \<in> set [(0::nat, Fin 1), (2, Fin (3 / 5))]" by simp
  have w: "(2::nat) < length [[1, 0], [0, 1], [3 / 5, 4 / 5::real]] \<and>
           cosine_similarity_manual [1, 0] ([[1, 0], [0, 1], [3 / 5, 4 / 5]] ! 2)
             = Inr (Fin (3 / 5))"
    using t[THEN conjunct1] h m by blast
  have e: "find_similar_items [1, 0] [] (Fin (1 / 2)) 2 = Inr []"
    by (simp add: query_eval)
  show ?thesis using h m w e by (intro conjI) simp_all
qed

text \<open>
  Claim C5.  Two results of a query with equal scores are listed in the order of their
  positions in the index: the one inserted first comes first.  The query is a function of
  its arguments, so its result is determined by the index and the query vector.
\<close>

theorem find_similar_items_ties:
  assumes "find_similar_items q embs threshold top_k = Inr res"
    and "i < j" and "j < length res" and "snd (res ! i) = snd (res ! j)"
  shows "fst (res ! i) < fst (res ! j)"
proof -
  from assms(1) obtain sims where
    sims: "similarities q (enumerate 0 embs) = Inr sims" and
    res: "res = py_prefix (sorted_reverse snd (filter (\<lambda>(index, sim). np_ge sim threshold) sims)) top_k"
    by (rule find_similar_items_Inr)
  obtain m where "res = take m (sorted_reverse snd (filter (\<lambda>(index, sim). np_ge sim threshold) sims))"
    using res py_prefix_take by metis
  then have "sorted_wrt ranked res"
    using ranked_full[OF sims] by (simp add: sorted_wrt_take)
  then have "ranked (res ! i) (res ! j)"
    using assms(2,3) by (simp add: sorted_wrt_iff_nth_less)
  then show ?thesis using assms(4) by (simp add: ranked_def)
qed

text \<open>
  Claim C5 at an index whose second and third embeddings both equal the query vector:
  they tie at score 1 and are listed in index order, ahead of the first embedding.
\<close>

theorem find_similar_items_ties_witness:
  "find_similar_items [1, 0] [[3 / 5, 4 / 5], [1, 0], [1, 0]] (Fin (1 / 2)) 5
     = Inr [(1, Fin 1), (2, Fin 1), (0, Fin (3 / 5))] \<and>
   (0::nat) < 1 \<and> (1::nat) < length [(1::nat, Fin 1), (2, Fin 1), (0, Fin (3 / 5))] \<and>
   snd ([(1::nat, Fin 1), (2, Fin 1), (0, Fin (3 / 5))] ! 0)
     = snd ([(1::nat, Fin 1), (2, Fin 1), (0, Fin (3 / 5))] ! 1) \<and>
   fst ([(1::nat, Fin 1), (2, Fin 1), (0, Fin (3 / 5))] ! 0)
     < fst ([(1::nat, Fin 1), (2, Fin 1), (0, Fin (3 / 5))] ! 1)"
proof -
  have h: "find_similar_items [1, 0] [[3 / 5, 4 / 5], [1, 0], [1, 0]] (Fin (1 / 2)) 5
             = Inr [(1, Fin 1), (2, Fin 1), (0, Fin (3 / 5))]"
    by (simp add: query_eval)
  show ?thesis
    using find_similar_items_ties[OF h, of 0 1] h by simp
qed

text \<open>
  Claim C1, amended.  For a non-negative \<open>top_k\<close> the query returns at most
  \<open>top_k\<close> results, every returned score passes \<open>score >= threshold\<close>, the results
  are in descending order of score, and the truncation comes last: an entry that passes
  the threshold is left out only when \<open>top_k\<close> results are returned and each of them
  scores at least as high.
\<close>

theorem find_similar_items_top_k:
  assumes "0 \<le> top_k" and "find_similar_items q embs threshold top_k = Inr res"
  shows "int (length res) \<le> top_k \<and>
         (\<forall>(index, score) \<in> set res. np_ge score threshold) \<and>
         sorted_wrt (\<lambda>a b. np_ge (snd a) (snd b)) res \<and>
         (\<forall>index score. index < length embs \<longrightarrow>
            cosine_similarity_manual q (embs ! index) = Inr score \<longrightarrow>
            np_ge score threshold \<longrightarrow> (index, score) \<notin> set res \<longrightarrow>
              int (length res) = top_k \<and> (\<forall>(index', score') \<in> set res. np_ge score' score))"
proof -
  from assms(2) obtain sims where
    sims: "similarities q (enumerate 0 embs) = Inr sims" and
    res: "res = py_prefix (sorted_reverse snd (filter (\<lambda>(index, sim). np_ge sim threshold) sims)) top_k"
    by (rule find_similar_items_Inr)
  define full where "full = sorted_reverse snd (filter (\<lambda>(index, sim). np_ge sim threshold) sims)"
  have take: "res = take (nat top_k) full"
    using res assms(1) by (simp add: py_prefix_def full_def)
  have ranked: "sorted_wrt ranked full"
    unfolding full_def by (rule ranked_full[OF sims])
  have len: "int (length res) \<le> top_k" using take assms(1) by simp
  have thr: "\<forall>(index, score) \<in> set res. np_ge score threshold"
    using take by (auto dest!: in_set_takeD simp: full_def set_sorted_reverse)
  have "sorted_wrt (\<lambda>a b. np_ge (snd a) (snd b)) full"
    using ranked by (rule sorted_wrt_mono_rel[rotated]) (simp add: ranked_def)
  then have desc: "sorted_wrt (\<lambda>a b. np_ge (snd a) (snd b)) res"
    using take by (simp add: sorted_wrt_take)
  have best: "int (length res) = top_k \<and> (\<forall>(index', score') \<in> set res. np_ge score' score)"
    if "index < length embs" "cosine_similarity_manual q (embs ! index) = Inr score"
      "np_ge score threshold" "(index, score) \<notin> set res" for index score
  proof -
    have "(index, score) \<in> set sims" using that(1,2) sims_member[OF sims] by simp
    then have "(index, score) \<in> set full"
      using that(3) by (simp add: full_def set_sorted_reverse)
    then have "(index, score) \<in> set (take (nat top_k) full) \<union> set (drop (nat top_k) full)"
      by (metis append_take_drop_id set_append)
    then have d: "(index, score) \<in> set (drop (nat top_k) full)"
      using that(4) take by simp
    then have "nat top_k < length full" by (cases "nat top_k < length full") auto
    then have l: "int (length res) = top_k" using take assms(1) by simp
    have "sorted_wrt ranked (take (nat top_k) full @ drop (nat top_k) full)"
      using ranked by simp
    then have "\<forall>a \<in> set res. ranked a (index, score)"
      using d take unfolding sorted_wrt_append by blast
    then show ?thesis using l by (auto simp: ranked_def)
  qed
  show ?thesis using len thr desc best by blast
qed



text \<open>
  The amended claim C1 at a query with two entries above the threshold and \<open>top_k = 1\<close>.
\<close>

theorem find_similar_items_top_k_witness:
  "(0::int) \<le> 1 \<and>
   find_similar_items [1, 0] [[1, 0], [0, 1], [3 / 5, 4 / 5]] (Fin (1 / 2)) 1 = Inr [(0, Fin 1)] \<and>
   (2::nat) < length [[1, 0], [0, 1], [3 / 5, 4 / 5::real]] \<and>
   cosine_similarity_manual [1, 0] ([[1, 0], [0, 1], [3 / 5, 4 / 5]] ! 2) = Inr (Fin (3 / 5)) \<and>
   np_ge (Fin (3 / 5)) (Fin (1 / 2)) \<and> (2, Fin (3 / 5)) \<notin> set [(0::nat, Fin 1)] \<and>
   int (length [(0::nat, Fin 1)]) = 1 \<and> np_ge (Fin 1) (Fin (3 / 5))"
proof -
  have h: "find_similar_items [1, 0] [[1, 0], [0, 1], [3 / 5, 4 / 5]] (Fin (1 / 2)) 1 = Inr [(0, Fin 1)]"
    by (simp add: query_eval)
  have c: "cosine_similarity_manual [1, 0] ([[1, 0], [0, 1], [3 / 5, 4 / 5]] ! 2) = Inr (Fin (3 / 5))"
    by (simp add: query_eval)
  show ?thesis
    using find_similar_items_top_k[of 1 "[1, 0]" "[[1, 0], [0, 1], [3 / 5, 4 / 5]]" "Fin (1 / 2)" "[(0, Fin 1)]"] h c
    by simp
qed

text \<open>
  Claim C1 as stated fails for a negative \<open>top_k\<close>: the slice \<open>[:-1]\<close> drops the
  last of two results and returns one, which is more than \<open>top_k\<close>.
\<close>

theorem find_similar_items_negative_top_k:
  "find_similar_items [1, 0] [[1, 0], [1, 0]] (Fin (1 / 2)) (- 1) = Inr [(0, Fin 1)] \<and>
   \<not> int (length (projr (find_similar_items [1, 0] [[1, 0], [1, 0]] (Fin (1 / 2)) (- 1)))) \<le> - 1"
  by (simp add: query_eval)

lemma sum_squares_zero: "(\<Sum>x \<leftarrow> v. x * x) = 0 \<longleftrightarrow> (\<forall>x \<in> set v. x = (0::real))"
proof (induction v)
  case Nil
  then show ?case by simp
next
  case (Cons a v)
  have "0 \<le> (\<Sum>x \<leftarrow> v. x * x)" by (rule sum_list_nonneg) auto
  then have "a * a + (\<Sum>x \<leftarrow> v. x * x) = 0 \<longleftrightarrow> a * a = 0 \<and> (\<Sum>x \<leftarrow> v. x * x) = 0"
    by (intro add_nonneg_eq_0_iff) auto
  then show ?case using Cons by simp
qed

lemma np_norm_zero: "np_norm v = 0 \<longleftrightarrow> (\<forall>x \<in> set v. x = 0)"
  by (simp add: np_norm_def sum_squares_zero)

lemma dot_zero_left: "\<forall>x \<in> set a. x = 0 \<Longrightarrow> (\<Sum>(x, y) \<leftarrow> zip a b. x * y) = (0::real)"
  by (induction a arbitrary: b) (auto simp: zip_Cons1 split: list.splits)

lemma dot_zero_right: "\<forall>y \<in> set b. y = 0 \<Longrightarrow> (\<Sum>(x, y) \<leftarrow> zip a b. x * y) = (0::real)"
  by (induction b arbitrary: a) (auto simp: zip_Cons split: list.splits)

lemma cosine_zero_vector:
  assumes "length vec1 = length vec2" "(\<forall>x \<in> set vec1. x = 0) \<or> (\<forall>x \<in> set vec2. x = 0)"
  shows "cosine_similarity_manual vec1 vec2 = Inr NaN"
  using assms
  by (auto simp: cosine_similarity_manual_def np_dot_def np_div_def np_norm_zero
      dot_zero_left dot_zero_right)

lemma cosine_Inr_length: "cosine_similarity_manual a b = Inr s \<Longrightarrow> length a = length b"
  by (auto simp: cosine_similarity_manual_def np_dot_def split: if_splits)

text \<open>
  Claim C2, amended.  There is no guard: for two vectors of equal length of which one
  is the zero vector the similarity is computed, and it is NaN.  The NaN does not reach
  the results of a query, since it fails the comparison with the threshold: no returned
  score is NaN, a returned entry is never the zero vector, and a query with the zero
  vector returns no entry.
\<close>

theorem zero_norm_similarity:
  "(length vec1 = length vec2 \<longrightarrow> (\<forall>x \<in> set vec1. x = 0) \<or> (\<forall>x \<in> set vec2. x = 0) \<longrightarrow>
      cosine_similarity_manual vec1 vec2 = Inr NaN) \<and>
   (find_similar_items q embs threshold top_k = Inr res \<longrightarrow> (index, score) \<in> set res \<longrightarrow>
      score \<noteq> NaN \<and> (\<exists>x \<in> set q. x \<noteq> 0) \<and> (\<exists>x \<in> set (embs ! index). x \<noteq> 0))"
proof (intro conjI impI)
  assume "length vec1 = length vec2" "(\<forall>x \<in> set vec1. x = 0) \<or> (\<forall>x \<in> set vec2. x = 0)"
  then show "cosine_similarity_manual vec1 vec2 = Inr NaN" by (rule cosine_zero_vector)
next
  assume r: "find_similar_items q embs threshold top_k = Inr res" and m: "(index, score) \<in> set res"
  from r obtain sims where
    sims: "similarities q (enumerate 0 embs) = Inr sims" and
    res: "res = py_prefix (sorted_reverse snd (filter (\<lambda>(index, sim). np_ge sim threshold) sims)) top_k"
    by (rule find_similar_items_Inr)
  obtain m' where "res = take m' (sorted_reverse snd (filter (\<lambda>(index, sim). np_ge sim threshold) sims))"
    using res py_prefix_take by metis
  then have mem: "(index, score) \<in> set sims" and ge: "np_ge score threshold"
    using m by (auto dest!: in_set_takeD simp: set_sorted_reverse)
  from ge show nn: "score \<noteq> NaN" by (auto dest: np_ge_not_NaN)
  from mem have c: "cosine_similarity_manual q (embs ! index) = Inr score"
    using sims_member[OF sims] by simp
  show "\<exists>x \<in> set q. x \<noteq> 0" "\<exists>x \<in> set (embs ! index). x \<noteq> 0"
    using cosine_zero_vector[OF cosine_Inr_length[OF c]] c nn by auto
qed

text \<open>
  Claim C2 as stated fails: the similarity of the zero vector with a unit vector is
  computed, and it is NaN.
\<close>

theorem zero_norm_similarity_is_nan:
  "cosine_similarity_manual [0, 0] [1, 0] = Inr NaN"
  by (simp add: query_eval)

text \<open>
  The amended claim C2 at an index whose first entry is the zero vector: the query
  returns the second entry only.
\<close>

theorem zero_norm_similarity_witness:
  "length [0, 0::real] = length [1, 0::real] \<and>
   cosine_similarity_manual [0, 0] [1, 0] = Inr NaN \<and>
   find_similar_items [1, 0] [[0, 0], [1, 0]] (Fin (1 / 2)) 2 = Inr [(1, Fin 1)] \<and>
   (1, Fin 1) \<in> set [(1::nat, Fin 1)] \<and> Fin 1 \<noteq> NaN"
proof -
  have h: "find_similar_items [1, 0] [[0, 0], [1, 0]] (Fin (1 / 2)) 2 = Inr [(1, Fin 1)]"
    by (simp add: query_eval)
  have z: "length [0, 0::real] = length [1, 0::real]"
    "(\<forall>x \<in> set [0, 0::real]. x = 0) \<or> (\<forall>x \<in> set [1, 0::real]. x = 0)"
    by simp_all
  have m: "(1, Fin 1) \<in> set [(1::nat, Fin 1)]" by simp
  note t = zero_norm_similarity[of "[0, 0]" "[1, 0]" "[1, 0]" "[[0, 0], [1, 0]]" "Fin (1 / 2)" 2
      "[(1, Fin 1)]" 1 "Fin 1"]
  have a: "cosine_similarity_manual [0, 0] [1, 0] = Inr NaN"
    using t[THEN conjunct1] z by blast
  have b: "Fin 1 \<noteq> NaN"
    using t[THEN conjunct2] h m by blast
  show ?thesis using z(1) a h m b by (intro conjI) assumption+
qed

section \<open>The retry policy of the embedding client\<close>

declare retrying.simps [simp del]


lemma retrying_waits:
  "attempt_number \<le> 10 \<Longrightarrow>
   \<exists>n. attempt_number \<le> n \<and> n \<le> 10 \<and>
     fst (retrying call jitter attempt_number slept)
       = slept @ map (\<lambda>m. wait_random_exponential 1 40 (jitter m) m) [attempt_number..<n] \<and>
     (\<forall>m. attempt_number \<le> m \<and> m < n \<longrightarrow> isl (call m)) \<and>
     snd (retrying call jitter attempt_number slept)
       = (case call n of Inr response \<Rightarrow> Inr response | Inl e \<Rightarrow> Inl RetryError) \<and>
     (isl (call n) \<longrightarrow> n = 10)"
proof (induction call jitter attempt_number slept rule: retrying.induct)
  case (1 call jitter attempt_number slept)
  show ?case
  proof (cases "call attempt_number")
    case (Inr response)
    then have "retrying call jitter attempt_number slept = (slept, Inr response)"
      by (simp add: retrying.simps[of call jitter attempt_number])
    then show ?thesis using "1.prems" Inr
      by (intro exI[of _ attempt_number]) auto
  next
    case (Inl e)
    show ?thesis
    proof (cases "stop_after_attempt 10 attempt_number")
      case True
      then have ten: "attempt_number = 10" using "1.prems" by (simp add: stop_after_attempt_def)
      have "retrying call jitter attempt_number slept = (slept, Inl RetryError)"
        using Inl True by (simp add: retrying.simps[of call jitter attempt_number])
      then show ?thesis using Inl ten
        by (intro exI[of _ attempt_number]) auto
    next
      case False
      then have lt: "attempt_number < 10" by (simp add: stop_after_attempt_def)
      then have "Suc attempt_number \<le> 10" by simp
      from "1.IH"[OF Inl False this] obtain n where n:
        "Suc attempt_number \<le> n" "n \<le> 10"
        "fst (retrying call jitter (Suc attempt_number)
               (slept @ [wait_random_exponential 1 40 (jitter attempt_number) attempt_number]))
           = (slept @ [wait_random_exponential 1 40 (jitter attempt_number) attempt_number])
               @ map (\<lambda>m. wait_random_exponential 1 40 (jitter m) m) [Suc attempt_number..<n]"
        "\<forall>m. Suc attempt_number \<le> m \<and> m < n \<longrightarrow> isl (call m)"
        "snd (retrying call jitter (Suc attempt_number)
               (slept @ [wait_random_exponential 1 40 (jitter attempt_number) attempt_number]))
           = (case call n of Inr response \<Rightarrow> Inr response | Inl e \<Rightarrow> Inl RetryError)"
        "isl (call n) \<longrightarrow> n = 10"
        by blast
      have unfold: "retrying call jitter attempt_number slept
          = retrying call jitter (Suc attempt_number)
               (slept @ [wait_random_exponential 1 40 (jitter attempt_number) attempt_number])"
        using Inl False by (simp add: retrying.simps[of call jitter attempt_number])
      have upt: "[attempt_number..<n] = attempt_number # [Suc attempt_number..<n]"
        using n(1) by (simp add: upt_rec)
      have fails: "\<forall>m. attempt_number \<le> m \<and> m < n \<longrightarrow> isl (call m)"
      proof (intro allI impI)
        fix m assume "attempt_number \<le> m \<and> m < n"
        then show "isl (call m)" using n(4) Inl by (cases "m = attempt_number") auto
      qed
      show ?thesis
        using n unfold upt fails
        by (intro exI[of _ n]) simp
    qed
  qed
qed




section \<open>Batching and corpus embedding\<close>

declare batchify_from.simps [simp del]

lemma batchify_from_step:
  "0 < n \<Longrightarrow> ndx < length iterable \<Longrightarrow>
     batchify_from iterable n ndx
       = take (min (ndx + n) (length iterable) - ndx) (drop ndx iterable)
           # batchify_from iterable n (ndx + n)"
  by (subst batchify_from.simps) simp

lemma batchify_from_stop:
  "\<not> (0 < n \<and> ndx < length iterable) \<Longrightarrow> batchify_from iterable n ndx = []"
  by (subst batchify_from.simps) simp

lemma concat_batchify_from:
  "0 < n \<Longrightarrow> concat (batchify_from iterable n ndx) = drop ndx iterable"
proof (induction iterable n ndx rule: batchify_from.induct)
  case (1 iterable n ndx)
  show ?case
  proof (cases "ndx < length iterable")
    case True
    have t: "take (min (ndx + n) (length iterable) - ndx) (drop ndx iterable)
               = take n (drop ndx iterable)"
      using True by (simp add: min_def)
    have "concat (batchify_from iterable n ndx)
            = take n (drop ndx iterable) @ drop (ndx + n) iterable"
      using batchify_from_step[OF "1.prems" True] t "1.IH" "1.prems" True by simp
    also have "\<dots> = take n (drop ndx iterable) @ drop n (drop ndx iterable)"
      by (simp add: add.commute)
    finally show ?thesis by (simp only: append_take_drop_id)
  next
    case False
    then show ?thesis by (simp add: batchify_from_stop)
  qed
qed


lemma batchify_from_sizes:
  "b \<in> set (batchify_from iterable n ndx) \<Longrightarrow> 0 < length b \<and> length b \<le> n"
proof (induction iterable n ndx rule: batchify_from.induct)
  case (1 iterable n ndx)
  show ?case
  proof (cases "0 < n \<and> ndx < length iterable")
    case True
    then have "b = take (min (ndx + n) (length iterable) - ndx) (drop ndx iterable) \<or>
               b \<in> set (batchify_from iterable n (ndx + n))"
      using "1.prems" batchify_from_step[of n ndx iterable] by auto
    then show ?thesis
    proof
      assume "b = take (min (ndx + n) (length iterable) - ndx) (drop ndx iterable)"
      then show ?thesis using True by auto
    next
      assume "b \<in> set (batchify_from iterable n (ndx + n))"
      then show ?thesis using "1.IH" True by simp
    qed
  next
    case False
    then show ?thesis using "1.prems" by (simp add: batchify_from_stop)
  qed
qed

lemma collect_results_Inr:
  "collect_results futures acc = Inr r \<Longrightarrow>
     \<exists>ds. futures = map Inr ds \<and> r = acc @ concat ds"
proof (induction futures arbitrary: acc)
  case Nil
  then show ?case by simp
next
  case (Cons f futures)
  from Cons.prems obtain d where f: "f = Inr d" and
    rest: "collect_results futures (acc @ d) = Inr r"
    by (auto split: sum.splits)
  from Cons.IH[OF rest] obtain ds where "futures = map Inr ds" "r = (acc @ d) @ concat ds"
    by blast
  then show ?case using f by (intro exI[of _ "d # ds"]) simp
qed

lemma collect_results_map_Inr: "collect_results (map Inr ds) acc = Inr (acc @ concat ds)"
  by (induction ds arbitrary: acc) auto

lemma get_embeddings_Inr:
  assumes "snd (get_embeddings client jitter input) = Inr response"
  shows "\<exists>n. 1 \<le> n \<and> n \<le> 10 \<and> client input n = Inr response"
proof -
  obtain n where "1 \<le> n" "n \<le> 10"
    "snd (get_embeddings client jitter input)
                = (case client input n of Inr response \<Rightarrow> Inr response | Inl e \<Rightarrow> Inl RetryError)"
    using retrying_waits[of 1 "client input" jitter "[]"]
    by (auto simp: get_embeddings_def)
  then show ?thesis using assms by (intro exI[of _ n]) (auto split: sum.splits)
qed

lemma get_embeddings_succeeds:
  assumes "1 \<le> n" "n \<le> 10" "\<not> isl (client input n)"
  shows "\<exists>response. snd (get_embeddings client jitter input) = Inr response"
proof -
  obtain m where m: "1 \<le> m" "m \<le> 10"
    "\<forall>k. 1 \<le> k \<and> k < m \<longrightarrow> isl (client input k)"
    "snd (get_embeddings client jitter input)
                = (case client input m of Inr response \<Rightarrow> Inr response | Inl e \<Rightarrow> Inl RetryError)"
    "isl (client input m) \<longrightarrow> m = 10"
    using retrying_waits[of 1 "client input" jitter "[]"]
    by (auto simp: get_embeddings_def)
  have "\<not> isl (client input m)"
  proof
    assume i: "isl (client input m)"
    then have "m = 10" using m(5) by simp
    then have "isl (client input n)" using m(3) i assms(1,2) by (cases "n = m") auto
    then show False using assms(3) by simp
  qed
  then show ?thesis using m(4) by (cases "client input m") auto
qed

lemma submit_all_nth:
  "k < length batches \<Longrightarrow>
     submit_all client jitter batches ! k = snd (get_embeddings (client k) (jitter k) (batches ! k))"
  by (simp add: submit_all_def nth_enumerate_eq)

lemma length_submit_all: "length (submit_all client jitter batches) = length batches"
  by (simp add: submit_all_def)

lemma embed_corpus_snd:
  "snd (embed_corpus encode client jitter completed corpus batch_size num_workers max_context_len)
     = (if num_workers \<le> 0 then Inl ValueError
        else case batchify (encoded_corpus encode corpus max_context_len) batch_size of
               Inl e \<Rightarrow> Inl e
             | Inr batches \<Rightarrow> collect_results (submit_all client jitter batches) [])"
  by (simp add: embed_corpus_def Let_def split: sum.splits)

lemma aligned_futures:
  assumes "\<forall>k batch n response. client k batch n = Inr response \<longrightarrow> response = map e batch"
    and "submit_all client jitter batches = map Inr ds"
  shows "ds = map (map e) batches"
proof (rule nth_equalityI)
  show l: "length ds = length (map (map e) batches)"
    using assms(2) length_submit_all[of client jitter batches] by (metis length_map)
  fix k assume "k < length ds"
  then have k: "k < length batches" using l by simp
  then have "snd (get_embeddings (client k) (jitter k) (batches ! k)) = Inr (ds ! k)"
    using submit_all_nth[OF k, of client jitter] assms(2) l by simp
  then obtain n where "client k (batches ! k) n = Inr (ds ! k)"
    using get_embeddings_Inr[of "client k" "jitter k" "batches ! k" "ds ! k"] by auto
  then show "ds ! k = map (map e) batches ! k" using assms(1) k by simp
qed

lemma submit_all_succeeds:
  assumes ok: "\<forall>k batch. \<exists>n. 1 \<le> n \<and> n \<le> 10 \<and> \<not> isl (client k batch n)"
  shows "\<exists>ds. submit_all client jitter batches = map Inr ds"
proof -
  have "\<exists>d. submit_all client jitter batches ! k = Inr d" if "k < length batches" for k
  proof -
    obtain n where "1 \<le> n" "n \<le> 10" "\<not> isl (client k (batches ! k) n)"
      using ok by blast
    then obtain d where "snd (get_embeddings (client k) (jitter k) (batches ! k)) = Inr d"
      using get_embeddings_succeeds[of n "client k" "batches ! k" "jitter k"] by auto
    then show ?thesis using submit_all_nth[OF that, of client jitter] by simp
  qed
  then have nth: "\<forall>k < length (submit_all client jitter batches).
                   \<exists>d. submit_all client jitter batches ! k = Inr d"
    by (simp add: length_submit_all)
  have "\<forall>f \<in> set (submit_all client jitter batches). \<exists>d. f = Inr d"
  proof
    fix f assume "f \<in> set (submit_all client jitter batches)"
    then obtain k where "k < length (submit_all client jitter batches)"
      "f = submit_all client jitter batches ! k"
      by (auto simp: in_set_conv_nth)
    then show "\<exists>d. f = Inr d" using nth by simp
  qed
  then have "\<forall>f \<in> set (submit_all client jitter batches). f = Inr (projr f)"
    by auto
  then have "submit_all client jitter batches
               = map Inr (map projr (submit_all client jitter batches))"
    by (simp add: map_idI)
  then show ?thesis by blast
qed

lemma embed_corpus_returns:
  assumes "0 < batch_size" and "0 < num_workers"
    and ok: "\<forall>k batch. \<exists>n. 1 \<le> n \<and> n \<le> 10 \<and> \<not> isl (client k batch n)"
  shows "\<exists>embs. snd (embed_corpus encode client jitter completed corpus batch_size num_workers
                        max_context_len) = Inr embs"
proof -
  let ?batches = "batchify_from (encoded_corpus encode corpus max_context_len) (nat batch_size) 0"
  obtain ds where "submit_all client jitter ?batches = map Inr ds"
    using submit_all_succeeds[OF ok] by blast
  then have "collect_results (submit_all client jitter ?batches) [] = Inr (concat ds)"
    using collect_results_map_Inr[of ds "[]"] by simp
  then show ?thesis using assms(1,2) by (simp add: embed_corpus_snd batchify_def)
qed

text \<open>
  Claim C4, amended.  For a positive batch size and a positive worker count, and a
  service whose successful responses hold one embedding per input in input order
  (\<open>map e batch\<close>): the returned value does not depend on the order in which the
  batches complete; a returned sequence is \<open>map e\<close> of the truncated token sequences
  of the corpus, so it has the length of the corpus and is aligned with it; and the call
  returns whenever every batch succeeds within its ten attempts.
\<close>

theorem embed_corpus_order:
  assumes "0 < batch_size" and "0 < num_workers"
    and "\<forall>k batch n response. client k batch n = Inr response \<longrightarrow> response = map e batch"
  shows "snd (embed_corpus encode client jitter completed corpus batch_size num_workers max_context_len)
           = snd (embed_corpus encode client jitter completed' corpus batch_size num_workers max_context_len) \<and>
         (\<forall>embs. snd (embed_corpus encode client jitter completed corpus batch_size num_workers
                      max_context_len) = Inr embs \<longrightarrow>
            embs = map e (encoded_corpus encode corpus max_context_len) \<and>
            length embs = length corpus) \<and>
         ((\<forall>k batch. \<exists>n. 1 \<le> n \<and> n \<le> 10 \<and> \<not> isl (client k batch n)) \<longrightarrow>
            snd (embed_corpus encode client jitter completed corpus batch_size num_workers
                   max_context_len) = Inr (map e (encoded_corpus encode corpus max_context_len)))"
proof -
  let ?enc = "encoded_corpus encode corpus max_context_len"
  let ?batches = "batchify_from ?enc (nat batch_size) 0"
  have run: "snd (embed_corpus encode client jitter c corpus batch_size num_workers max_context_len)
               = collect_results (submit_all client jitter ?batches) []" for c
    using assms(1,2) by (simp add: embed_corpus_snd batchify_def)
  have cat: "concat ?batches = ?enc"
    using assms(1) by (simp add: concat_batchify_from)
  have aligned: "embs = map e ?enc"
    if "collect_results (submit_all client jitter ?batches) [] = Inr embs" for embs
  proof -
    from collect_results_Inr[OF that] obtain ds where
      ds: "submit_all client jitter ?batches = map Inr ds" "embs = concat ds"
      by auto
    have "ds = map (map e) ?batches" using assms(3) ds(1) by (rule aligned_futures)
    then have "embs = map e (concat ?batches)" using ds(2) by (simp add: map_concat)
    then show ?thesis using cat by simp
  qed
  have c1: "snd (embed_corpus encode client jitter completed corpus batch_size num_workers max_context_len)
           = snd (embed_corpus encode client jitter completed' corpus batch_size num_workers max_context_len)"
    by (simp add: run)
  have c2: "\<forall>embs. snd (embed_corpus encode client jitter completed corpus batch_size num_workers
                      max_context_len) = Inr embs \<longrightarrow>
            embs = map e ?enc \<and> length embs = length corpus"
    using aligned by (auto simp: run encoded_corpus_def)
  have c3: "snd (embed_corpus encode client jitter completed corpus batch_size num_workers
                   max_context_len) = Inr (map e ?enc)"
    if ok: "\<forall>k batch. \<exists>n. 1 \<le> n \<and> n \<le> 10 \<and> \<not> isl (client k batch n)"
  proof -
    obtain embs where "snd (embed_corpus encode client jitter completed corpus batch_size
                              num_workers max_context_len) = Inr embs"
      using embed_corpus_returns[OF assms(1,2) ok] by blast
    then show ?thesis using aligned run by simp
  qed
  show ?thesis using c1 c2 c3 by blast
qed



lemmas corpus_eval = embed_corpus_def encoded_corpus_def batchify_def submit_all_def
  get_embeddings_def retrying.simps batchify_from.simps py_prefix_def enumerate_simps

text \<open>
  The amended claim C4 at three texts in batches of two, where the first batch succeeds
  only at its third attempt, for the two completion orders.
\<close>

theorem embed_corpus_order_witness:
  "(0::int) < 2 \<and> (0::int) < 8 \<and>
   snd (embed_corpus (\<lambda>t. [length t])
          (\<lambda>k batch n. if k = 0 \<and> n < 3 then Inl ServiceError else Inr (map (map real) batch))
          (\<lambda>k n. 1 / 2) [1, 0] [''ab'', ''c'', ''def''] 2 8 8191)
     = Inr [[2], [1], [3]] \<and>
   snd (embed_corpus (\<lambda>t. [length t])
          (\<lambda>k batch n. if k = 0 \<and> n < 3 then Inl ServiceError else Inr (map (map real) batch))
          (\<lambda>k n. 1 / 2) [0, 1] [''ab'', ''c'', ''def''] 2 8 8191)
     = Inr [[2], [1], [3]] \<and>
   length [[2], [1], [3::real]] = length [''ab'', ''c'', ''def'']"
proof -
  let ?client = "\<lambda>(k::nat) (batch::nat list list) (n::nat).
                   if k = 0 \<and> n < 3 then Inl ServiceError else Inr (map (map real) batch)"
  have h: "\<forall>k batch n response. ?client k batch n = Inr response \<longrightarrow> response = map (map real) batch"
    by auto
  have r: "snd (embed_corpus (\<lambda>t. [length t]) ?client (\<lambda>k n. 1 / 2) [1, 0]
                 [''ab'', ''c'', ''def''] 2 8 8191) = Inr [[2], [1], [3]]"
    by (simp add: corpus_eval stop_after_attempt_def)
  show ?thesis
    using embed_corpus_order[of 2 8 ?client "map real" "\<lambda>t. [length t]" "\<lambda>k n. 1 / 2" "[1, 0]"
        "[''ab'', ''c'', ''def'']" 8191 "[0, 1]", OF _ _ h] r
    by simp
qed

text \<open>
  Claim C4 as stated fails for a negative batch size: \<open>range(0, l, -1)\<close> is empty, no
  batch is submitted and the empty list is returned for a corpus of one text.
\<close>

theorem embed_corpus_negative_batch_size:
  "snd (embed_corpus (\<lambda>t. [length t]) (\<lambda>k batch n. Inr (map (map real) batch)) (\<lambda>k n. 1 / 2) []
          [''ab''] (- 1) 8 8191) = Inr [] \<and>
   length (projr (snd (embed_corpus (\<lambda>t. [length t]) (\<lambda>k batch n. Inr (map (map real) batch))
          (\<lambda>k n. 1 / 2) [] [''ab''] (- 1) 8 8191))) \<noteq> length [''ab'']"
  by (simp add: corpus_eval)

lemma submit_all_cong:
  assumes "\<forall>k < length batches. \<forall>n. client k (batches ! k) n = client' k (batches ! k) n"
  shows "submit_all client jitter batches = submit_all client' jitter batches"
proof (rule nth_equalityI)
  show "length (submit_all client jitter batches) = length (submit_all client' jitter batches)"
    by (simp add: length_submit_all)
  fix k assume "k < length (submit_all client jitter batches)"
  then have k: "k < length batches" by (simp add: length_submit_all)
  then have "client k (batches ! k) = client' k (batches ! k)" using assms by auto
  then show "submit_all client jitter batches ! k = submit_all client' jitter batches ! k"
    using k by (simp add: submit_all_nth get_embeddings_def)
qed

lemma batchify_members:
  assumes "batchify iterable n = Inr batches" "batch \<in> set batches"
  shows "set batch \<subseteq> set iterable"
proof (cases "0 < n")
  case True
  then have "concat batches = iterable"
    using assms(1) concat_batchify_from[of "nat n" iterable 0]
    by (auto simp: batchify_def split: if_splits)
  then show ?thesis using assms(2) by (metis Sup_upper image_eqI set_concat subset_eq)
next
  case False
  then show ?thesis using assms by (auto simp: batchify_def split: if_splits)
qed

text \<open>
  Claim C9, amended.  For a non-negative \<open>max_context_len\<close> every text is encoded and
  cut to its first \<open>max_context_len\<close> tokens; every item of every submitted batch is
  such a prefix and has at most \<open>max_context_len\<close> tokens; the result does not depend
  on what the service would answer to a batch with a longer item; and cutting raises no
  error: with a positive batch size and worker count the call returns whenever every
  batch succeeds within its ten attempts.
\<close>

theorem embed_corpus_truncation:
  assumes "0 \<le> max_context_len"
  shows "encoded_corpus encode corpus max_context_len
           = map (\<lambda>text. take (nat max_context_len) (encode text)) corpus \<and>
         (\<forall>batches. batchify (encoded_corpus encode corpus max_context_len) batch_size = Inr batches \<longrightarrow>
            (\<forall>batch \<in> set batches. \<forall>article \<in> set batch.
               int (length article) \<le> max_context_len \<and>
               (\<exists>text \<in> set corpus. article = take (nat max_context_len) (encode text)))) \<and>
         ((\<forall>k batch n. (\<forall>article \<in> set batch. int (length article) \<le> max_context_len) \<longrightarrow>
              client k batch n = client' k batch n) \<longrightarrow>
            snd (embed_corpus encode client jitter completed corpus batch_size num_workers
                   max_context_len)
              = snd (embed_corpus encode client' jitter completed corpus batch_size num_workers
                   max_context_len)) \<and>
         (0 < batch_size \<and> 0 < num_workers \<and>
            (\<forall>k batch. \<exists>n. 1 \<le> n \<and> n \<le> 10 \<and> \<not> isl (client k batch n)) \<longrightarrow>
            \<not> isl (snd (embed_corpus encode client jitter completed corpus batch_size num_workers
                          max_context_len)))"
proof -
  let ?enc = "encoded_corpus encode corpus max_context_len"
  have c1: "?enc = map (\<lambda>text. take (nat max_context_len) (encode text)) corpus"
    using assms by (simp add: encoded_corpus_def py_prefix_def)
  have item: "int (length article) \<le> max_context_len \<and>
              (\<exists>text \<in> set corpus. article = take (nat max_context_len) (encode text))"
    if "batchify ?enc batch_size = Inr batches" "batch \<in> set batches" "article \<in> set batch"
    for batches batch article
  proof -
    have "article \<in> set ?enc" using batchify_members[OF that(1,2)] that(3) by auto
    then obtain t where "t \<in> set corpus" "article = take (nat max_context_len) (encode t)"
      unfolding c1 by auto
    then show ?thesis using assms by auto
  qed
  then have c2: "\<forall>batches. batchify ?enc batch_size = Inr batches \<longrightarrow>
            (\<forall>batch \<in> set batches. \<forall>article \<in> set batch.
               int (length article) \<le> max_context_len \<and>
               (\<exists>text \<in> set corpus. article = take (nat max_context_len) (encode text)))"
    by blast
  have c3: "snd (embed_corpus encode client jitter completed corpus batch_size num_workers
                   max_context_len)
              = snd (embed_corpus encode client' jitter completed corpus batch_size num_workers
                   max_context_len)"
    if agree: "\<forall>k batch n. (\<forall>article \<in> set batch. int (length article) \<le> max_context_len) \<longrightarrow>
              client k batch n = client' k batch n"
  proof (cases "batchify ?enc batch_size")
    case (Inl e)
    then show ?thesis by (simp add: embed_corpus_snd)
  next
    case (Inr batches)
    have "\<forall>k < length batches. \<forall>n. client k (batches ! k) n = client' k (batches ! k) n"
      using agree item[OF Inr] by (meson nth_mem)
    then have "submit_all client jitter batches = submit_all client' jitter batches"
      by (rule submit_all_cong)
    then show ?thesis using Inr by (simp add: embed_corpus_snd)
  qed
  have c4: "\<not> isl (snd (embed_corpus encode client jitter completed corpus batch_size num_workers
                          max_context_len))"
    if "0 < batch_size \<and> 0 < num_workers \<and>
            (\<forall>k batch. \<exists>n. 1 \<le> n \<and> n \<le> 10 \<and> \<not> isl (client k batch n))"
    using embed_corpus_returns[of batch_size num_workers client encode jitter completed corpus
        max_context_len] that by auto
  show ?thesis using c1 c2 c3 c4 by blast
qed

text \<open>
  The amended claim C9 at a text of three tokens and a maximum of two: the service
  receives the first two tokens and the call returns.
\<close>

theorem embed_corpus_truncation_witness:
  "(0::int) \<le> 2 \<and>
   encoded_corpus (\<lambda>t. [1, 2, 3]) [''abc''] 2 = [[1, 2]] \<and>
   batchify (encoded_corpus (\<lambda>t. [1, 2, 3]) [''abc''] 2) 64 = Inr [[[1, 2]]] \<and>
   int (length [1, 2::nat]) \<le> 2 \<and> (0::int) < 64 \<and> (0::int) < 8 \<and>
   snd (embed_corpus (\<lambda>t. [1, 2, 3])
          (\<lambda>k batch n. Inr (map (\<lambda>article. [real (length article)]) batch))
          (\<lambda>k n. 1 / 2) [0] [''abc''] 64 8 2) = Inr [[2]] \<and>
   \<not> isl (snd (embed_corpus (\<lambda>t. [1, 2, 3])
          (\<lambda>k batch n. Inr (map (\<lambda>article. [real (length article)]) batch))
          (\<lambda>k n. 1 / 2) [0] [''abc''] 64 8 2))"
proof -
  let ?client = "\<lambda>(k::nat) (batch::nat list list) (n::nat).
                   Inr (map (\<lambda>article. [real (length article)]) batch) :: error + real list list"
  have h0: "(0::int) \<le> 2" by simp
  note t = embed_corpus_truncation[OF h0, where encode = "\<lambda>t. [1, 2, 3]" and corpus = "[''abc'']"
      and batch_size = 64 and client = ?client and client' = ?client and jitter = "\<lambda>k n. 1 / 2"
      and completed = "[0]" and num_workers = 8]
  have e: "encoded_corpus (\<lambda>t. [1, 2, 3]) [''abc''] 2 = [[1, 2]]"
    using t[THEN conjunct1] by simp
  have b: "batchify (encoded_corpus (\<lambda>t. [1, 2, 3]) [''abc''] 2) 64 = Inr [[[1, 2]]]"
    by (simp add: corpus_eval)
  have l: "int (length [1, 2::nat]) \<le> 2"
    using t[THEN conjunct2, THEN conjunct1] b by fastforce
  have ok: "(0::int) < 64 \<and> (0::int) < 8 \<and>
            (\<forall>k batch. \<exists>n. 1 \<le> n \<and> n \<le> 10 \<and> \<not> isl (?client k batch n))"
    by (auto intro: exI[of _ 1])
  have ne: "\<not> isl (snd (embed_corpus (\<lambda>t. [1, 2, 3]) ?client (\<lambda>k n. 1 / 2) [0] [''abc''] 64 8 2))"
    using t[THEN conjunct2, THEN conjunct2, THEN conjunct2] ok by blast
  have r: "snd (embed_corpus (\<lambda>t. [1, 2, 3]) ?client (\<lambda>k n. 1 / 2) [0] [''abc''] 64 8 2)
             = Inr [[2]]"
    by (simp add: corpus_eval)
  show ?thesis
    using e b l ne r by (intro conjI) simp_all
qed

text \<open>
  Claim C9 as stated fails for a negative maximum: with \<open>max_context_len = -1\<close> the
  slice drops the last token only, and the service receives two tokens.
\<close>

theorem embed_corpus_negative_max_context_len:
  "snd (embed_corpus (\<lambda>t. [1, 2, 3]) (\<lambda>k batch n. Inr (map (\<lambda>article. [real (length article)]) batch))
          (\<lambda>k n. 1 / 2) [0] [''abc''] 64 8 (- 1)) = Inr [[2]] \<and>
   \<not> int (length (hd (encoded_corpus (\<lambda>t. [1, 2, 3]) [''abc''] (- 1)))) \<le> - 1"
  by (simp add: corpus_eval)

section \<open>Retrieval over the descriptions\<close>


















section \<open>The guardrail loop\<close>



lemma guardrail_loop_cong:
  assumes "\<forall>p \<in> set ps. check' p = check p \<or>
             (\<exists>m m' a a'. check p = Inr m \<and> check' p = Inr m' \<and>
                m ''answer'' = Some a \<and> m' ''answer'' = Some a' \<and>
                a \<noteq> JStr ''yes'' \<and> a' \<noteq> JStr ''yes'')"
  shows "guardrail_loop check' ps ev = guardrail_loop check ps ev"
  using assms
proof (induction ps arbitrary: ev)
  case Nil
  then show ?case by simp
next
  case (Cons path ps)
  have ih: "guardrail_loop check' ps ev2 = guardrail_loop check ps ev2" for ev2
    using Cons by simp
  from Cons.prems have "check' path = check path \<or>
             (\<exists>m m' a a'. check path = Inr m \<and> check' path = Inr m' \<and>
                m ''answer'' = Some a \<and> m' ''answer'' = Some a' \<and>
                a \<noteq> JStr ''yes'' \<and> a' \<noteq> JStr ''yes'')"
    by simp
  then show ?case
  proof
    assume "check' path = check path"
    then show ?thesis using ih by (simp split: sum.splits option.splits)
  next
    assume "\<exists>m m' a a'. check path = Inr m \<and> check' path = Inr m' \<and>
                m ''answer'' = Some a \<and> m' ''answer'' = Some a' \<and>
                a \<noteq> JStr ''yes'' \<and> a' \<noteq> JStr ''yes''"
    then show ?thesis using ih by auto
  qed
qed




text \<open>
  Claim C8, amended.  The loop tells \<open>yes\<close> from everything else and has no error for
  an unexpected verdict: a response whose answer is not \<open>yes\<close> is passed over exactly
  like a \<open>no\<close>, and replacing such answers by one another changes neither the events
  nor the outcome of the loop.
\<close>

theorem guardrail_loop_verdict:
  "((\<forall>p \<in> set ps. check' p = check p \<or>
       (\<exists>m m' a a'. check p = Inr m \<and> check' p = Inr m' \<and>
          m ''answer'' = Some a \<and> m' ''answer'' = Some a' \<and>
          a \<noteq> JStr ''yes'' \<and> a' \<noteq> JStr ''yes'')) \<longrightarrow>
      guardrail_loop check' ps events = guardrail_loop check ps events) \<and>
   (\<forall>m a. check path = Inr m \<longrightarrow> m ''answer'' = Some a \<longrightarrow> a \<noteq> JStr ''yes'' \<longrightarrow>
      guardrail_loop check (path # ps) events = guardrail_loop check ps (events @ [Verify path]))"
  using guardrail_loop_cong[of ps check' check events] by auto

text \<open>
  Claim C8 as stated fails: the verdict \<open>maybe\<close> raises no error; the image is passed
  over and the loop completes.
\<close>

theorem guardrail_loop_unexpected_verdict:
  "guardrail_loop (\<lambda>path. Inr [''answer'' \<mapsto> JStr ''maybe'', ''reason'' \<mapsto> JStr ''unsure''])
     [''1.jpg''] [] = ([Verify ''1.jpg''], None)"
  by simp

text \<open>
  The amended claim C8 at two images: the answers \<open>maybe\<close> and \<open>no\<close> give the same
  run.
\<close>

theorem guardrail_loop_verdict_witness:
  "JStr ''no'' \<noteq> JStr ''yes'' \<and> JStr ''maybe'' \<noteq> JStr ''yes'' \<and>
   guardrail_loop (\<lambda>path. Inr [''answer'' \<mapsto> JStr ''maybe'', ''reason'' \<mapsto> JStr ''unsure''])
     [''1.jpg'', ''2.jpg''] []
   = guardrail_loop (\<lambda>path. Inr [''answer'' \<mapsto> JStr ''no'', ''reason'' \<mapsto> JStr ''clashes''])
     [''1.jpg'', ''2.jpg''] []"
proof -
  let ?c' = "\<lambda>path::string. Inr [''answer'' \<mapsto> JStr ''maybe'', ''reason'' \<mapsto> JStr ''unsure'']
               :: error + (string \<rightharpoonup> jvalue)"
  let ?c = "\<lambda>path::string. Inr [''answer'' \<mapsto> JStr ''no'', ''reason'' \<mapsto> JStr ''clashes'']
               :: error + (string \<rightharpoonup> jvalue)"
  have h: "\<forall>p \<in> set [''1.jpg'', ''2.jpg'']. ?c' p = ?c p \<or>
       (\<exists>m m' a a'. ?c p = Inr m \<and> ?c' p = Inr m' \<and>
          m ''answer'' = Some a \<and> m' ''answer'' = Some a' \<and>
          a \<noteq> JStr ''yes'' \<and> a' \<noteq> JStr ''yes'')"
    by simp
  note t = guardrail_loop_verdict[of "[''1.jpg'', ''2.jpg'']" ?c' ?c "[]", THEN conjunct1, THEN mp, OF h]
  show ?thesis using t by (intro conjI) simp_all
qed


end
